theory Spec2Isabelle
  imports Complex_Main "HOL-Library.Word" "HOL-Library.Sublist"
begin

section \<open>JavaScript strings\<close>

text \<open>
  A JavaScript string is a sequence of UTF-16 code units; \<^verbatim>\<open>length\<close> counts code
  units. A code point outside the Basic Multilingual Plane is a surrogate pair: a lead
  unit in D800..DBFF followed by a trail unit in DC00..DFFF.
\<close>

type_synonym code_unit = "16 word"
type_synonym jsstring = "code_unit list"

definition lit :: "string \<Rightarrow> jsstring" where
  "lit s = map of_char s"

definition LF :: code_unit where
  "LF = 0x0A"

definition SP :: code_unit where
  "SP = 0x20"

definition is_lead :: "code_unit \<Rightarrow> bool" where
  "is_lead c = (0xD800 \<le> c \<and> c \<le> 0xDBFF)"

definition is_trail :: "code_unit \<Rightarrow> bool" where
  "is_trail c = (0xDC00 \<le> c \<and> c \<le> 0xDFFF)"

text \<open>
  \<^verbatim>\<open>Array.from(s)\<close> runs the string iterator, which yields one string per code
  point: a well-formed surrogate pair stays together (a string of length 2), every other
  code unit is a string of length 1.
\<close>

fun array_from :: "jsstring \<Rightarrow> jsstring list" where
  "array_from [] = []"
| "array_from [c] = [[c]]"
| "array_from (c # d # cs) =
     (if is_lead c \<and> is_trail d then [c, d] # array_from cs
      else [c] # array_from (d # cs))"

text \<open>
  \<^verbatim>\<open>s.split(sep)\<close> for a non-empty string \<open>sep\<close>: the pieces between the
  successive non-overlapping occurrences of \<open>sep\<close>, found from the left; empty pieces
  are kept. The source never calls it with the empty separator (it calls
  \<^verbatim>\<open>Array.from\<close> instead).
\<close>

function js_split_from :: "jsstring \<Rightarrow> jsstring \<Rightarrow> jsstring \<Rightarrow> jsstring list" where
  "js_split_from sep piece [] = [piece]"
| "js_split_from sep piece (c # cs) =
     (if sep \<noteq> [] \<and> prefix sep (c # cs)
      then piece # js_split_from sep [] (drop (length sep) (c # cs))
      else js_split_from sep (piece @ [c]) cs)"
  by pat_completeness auto
termination
  by (relation "measure (\<lambda>(sep, piece, rest). length rest)") (auto simp: neq_Nil_conv)

definition js_split :: "jsstring \<Rightarrow> jsstring \<Rightarrow> jsstring list" where
  "js_split s sep = js_split_from sep [] s"

text \<open>
  \<^verbatim>\<open>s.slice(start, end)\<close>, of strings and of arrays alike: a negative index counts
  from the end, both indices are clamped to the sequence, and the result is empty when
  the end is not after the start.
\<close>

definition js_slice :: "'a list \<Rightarrow> int \<Rightarrow> int \<Rightarrow> 'a list" where
  "js_slice s start end =
     (let len = int (length s);
          from = (if start < 0 then max (len + start) 0 else min start len);
          to = (if end < 0 then max (len + end) 0 else min end len)
      in take (nat (to - from)) (drop (nat from) s))"

section \<open>The chunker: \<^verbatim>\<open>recursiveCharacterSplit\<close>\<close>

text \<open>
  The parameters \<open>chunkSize\<close> and \<open>chunkOverlap\<close> are JavaScript numbers; they are
  modelled as integers of any sign, since the source does not restrict them.
\<close>

definition separators :: "jsstring list" where
  "separators = [[LF, LF], [LF], [SP], []]"

text \<open>
  The hard-split loop of \<^verbatim>\<open>splitText\<close>:
  \<^verbatim>\<open>for (let i = 0; i < currentText.length; i += chunkSize - chunkOverlap)
    hardChunks.push(currentText.slice(i, i + chunkSize));\<close>
  Nothing in the source bounds the step from below, so the loop may run forever: the
  model returns \<open>None\<close> exactly when it does.
\<close>

partial_function (option) hardSplitLoop ::
    "jsstring \<Rightarrow> int \<Rightarrow> int \<Rightarrow> int \<Rightarrow> jsstring list \<Rightarrow> jsstring list option" where
  "hardSplitLoop currentText chunkSize chunkOverlap i hardChunks =
     (if i < int (length currentText)
      then hardSplitLoop currentText chunkSize chunkOverlap (i + (chunkSize - chunkOverlap))
             (hardChunks @ [js_slice currentText i (i + chunkSize)])
      else Some hardChunks)"

declare hardSplitLoop.simps [code]

text \<open>
  The recombination loop of \<^verbatim>\<open>splitText\<close> (the \<^verbatim>\<open>for (const split of splits)\<close>
  loop and the push of the remainder after it), with its two mutable variables
  \<open>goodSplits\<close> and \<open>currentChunk\<close> passed along. An empty string is falsy, so
  \<^verbatim>\<open>if (currentChunk)\<close> is the test \<open>currentChunk \<noteq> []\<close>.
\<close>

fun recombine ::
    "int \<Rightarrow> jsstring \<Rightarrow> jsstring list \<Rightarrow> jsstring list \<Rightarrow> jsstring \<Rightarrow> jsstring list" where
  "recombine chunkSize separator [] goodSplits currentChunk =
     (if currentChunk \<noteq> [] then goodSplits @ [currentChunk] else goodSplits)"
| "recombine chunkSize separator (split # splits) goodSplits currentChunk =
     (let potentialChunk =
            (if length currentChunk > 0 then currentChunk @ separator @ split else split)
      in if int (length potentialChunk) < chunkSize
         then recombine chunkSize separator splits goodSplits potentialChunk
         else recombine chunkSize separator splits
                (if currentChunk \<noteq> [] then goodSplits @ [currentChunk] else goodSplits)
                split)"

text \<open>
  The results of the last loop of \<^verbatim>\<open>splitText\<close> are concatenated in order; a
  recursive call that does not return keeps the whole call from returning.
\<close>

fun concat_results :: "'a list option list \<Rightarrow> 'a list option" where
  "concat_results [] = Some []"
| "concat_results (r # rs) =
     (case r of
        None \<Rightarrow> None
      | Some xs \<Rightarrow> (case concat_results rs of None \<Rightarrow> None | Some ys \<Rightarrow> Some (xs @ ys)))"

function splitText :: "int \<Rightarrow> int \<Rightarrow> jsstring \<Rightarrow> nat \<Rightarrow> jsstring list option" where
  "splitText chunkSize chunkOverlap currentText separatorIndex =
     (if int (length currentText) \<le> chunkSize then Some [currentText]
      else if separatorIndex \<ge> length separators
      then hardSplitLoop currentText chunkSize chunkOverlap 0 []
      else
        let separator = separators ! separatorIndex;
            splits = (if separator = [] then array_from currentText
                      else js_split currentText separator);
            goodSplits = recombine chunkSize separator splits [] []
        in concat_results
             (map (\<lambda>chunk.
                     if int (length chunk) > chunkSize
                     then splitText chunkSize chunkOverlap chunk (separatorIndex + 1)
                     else Some [chunk])
                goodSplits))"
  by pat_completeness auto
termination
  by (relation "measure (\<lambda>(chunkSize, chunkOverlap, currentText, separatorIndex).
                  length separators - separatorIndex)") auto

definition recursiveCharacterSplit :: "jsstring \<Rightarrow> int \<Rightarrow> int \<Rightarrow> jsstring list option" where
  "recursiveCharacterSplit text chunkSize chunkOverlap = splitText chunkSize chunkOverlap text 0"

section \<open>Auxiliary notions for the chunker\<close>

text \<open>
  The configurations the specification calls valid. The source has no such check; the
  predicate is only used to state properties.
\<close>

definition valid_config :: "int \<Rightarrow> int \<Rightarrow> bool" where
  "valid_config chunkSize chunkOverlap =
     (0 < chunkSize \<and> 0 \<le> chunkOverlap \<and> chunkOverlap < chunkSize)"

text \<open>
  The value of the variable \<open>goodSplits\<close> in the call
  \<^verbatim>\<open>splitText(currentText, separatorIndex)\<close>, when the call gets that far.
\<close>

definition goodSplits_of :: "int \<Rightarrow> jsstring \<Rightarrow> nat \<Rightarrow> jsstring list" where
  "goodSplits_of chunkSize currentText separatorIndex =
     (let separator = separators ! separatorIndex;
          splits = (if separator = [] then array_from currentText
                    else js_split currentText separator)
      in recombine chunkSize separator splits [] [])"

text \<open>
  Whether the call \<^verbatim>\<open>splitText(currentText, separatorIndex)\<close>, or one of the
  recursive calls it makes, enters the hard-split branch
  (\<^verbatim>\<open>separatorIndex >= separators.length\<close>). It follows the control flow of
  \<open>splitText\<close> and does not depend on \<open>chunkOverlap\<close>.
\<close>

function hardSplitReached :: "int \<Rightarrow> jsstring \<Rightarrow> nat \<Rightarrow> bool" where
  "hardSplitReached chunkSize currentText separatorIndex =
     (if int (length currentText) \<le> chunkSize then False
      else if separatorIndex \<ge> length separators then True
      else list_ex (\<lambda>chunk. if int (length chunk) > chunkSize
                             then hardSplitReached chunkSize chunk (separatorIndex + 1)
                             else False)
             (goodSplits_of chunkSize currentText separatorIndex))"
  by pat_completeness auto
termination
  by (relation "measure (\<lambda>(chunkSize, currentText, separatorIndex).
                  length separators - separatorIndex)") auto

text \<open>A surrogate pair somewhere in the string: a code point outside the BMP.\<close>

fun has_surrogate_pair :: "jsstring \<Rightarrow> bool" where
  "has_surrogate_pair [] = False"
| "has_surrogate_pair [c] = False"
| "has_surrogate_pair (c # d # cs) =
     ((is_lead c \<and> is_trail d) \<or> has_surrogate_pair (d # cs))"

text \<open>The characters that occur in the separators: line feed and space.\<close>

definition separator_unit :: "code_unit \<Rightarrow> bool" where
  "separator_unit c = (c = LF \<or> c = SP)"

text \<open>
  Putting the chunks back into a text: \<open>interleave gaps chunks\<close> writes the first gap,
  the first chunk, the second gap, the second chunk and so on; with one gap more than
  there are chunks, the last gap ends the text.
\<close>

fun interleave :: "jsstring list \<Rightarrow> jsstring list \<Rightarrow> jsstring" where
  "interleave (g # gaps) (c # chunks) = g @ c @ interleave gaps chunks"
| "interleave gaps [] = concat gaps"
| "interleave [] chunks = concat chunks"

text \<open>
  \<open>covers chunks t\<close>: the text \<open>t\<close> is the chunks, in order and without overlap, with
  nothing but line feeds and spaces before, between and after them.
\<close>

inductive covers :: "jsstring list \<Rightarrow> jsstring \<Rightarrow> bool" where
  covers_Nil: "\<forall>u\<in>set g. separator_unit u \<Longrightarrow> covers [] g"
| covers_Cons: "\<forall>u\<in>set g. separator_unit u \<Longrightarrow> covers chunks t \<Longrightarrow>
               covers (c # chunks) (g @ c @ t)"

text \<open>\<^verbatim>\<open>pieces.join(sep)\<close>, the inverse of \<^verbatim>\<open>split\<close>.\<close>

fun js_join :: "jsstring \<Rightarrow> jsstring list \<Rightarrow> jsstring" where
  "js_join sep [] = []"
| "js_join sep [p] = p"
| "js_join sep (p # q # ps) = p @ sep @ js_join sep (q # ps)"

section \<open>\<^verbatim>\<open>createChunksFromDoc\<close>\<close>

record metadata =
  startIndex :: nat
  endIndex :: nat

record DocumentChunk =
  chunk_id :: jsstring
  sourceId :: jsstring
  content :: jsstring
  metadata :: metadata

text \<open>
  The code units that \<^verbatim>\<open>trim\<close> removes and that \<^verbatim>\<open>\s\<close> matches: the
  WhiteSpace and LineTerminator code points of ECMAScript, all of them in the BMP.
\<close>

definition is_space :: "code_unit \<Rightarrow> bool" where
  "is_space c =
     (c \<in> {0x09, 0x0A, 0x0B, 0x0C, 0x0D, 0x20, 0xA0, 0x1680, 0x2028, 0x2029, 0x202F,
            0x205F, 0x3000, 0xFEFF} \<or> (0x2000 \<le> c \<and> c \<le> 0x200A))"

definition js_trim :: "jsstring \<Rightarrow> jsstring" where
  "js_trim s = rev (dropWhile is_space (rev (dropWhile is_space s)))"

text \<open>
  An array index inside a template literal: the decimal digits of a natural number.
\<close>

fun number_to_string :: "nat \<Rightarrow> jsstring" where
  "number_to_string n =
     (if n < 10 then [0x30 + of_nat n]
      else number_to_string (n div 10) @ [0x30 + of_nat (n mod 10)])"

declare number_to_string.simps [simp del]

text \<open>
  \<^verbatim>\<open>createChunksFromDoc\<close> calls the splitter with its default arguments 500 and 50
  and maps every piece, with its index, to a chunk. It returns when the splitter does.
\<close>

definition createChunksFromDoc :: "jsstring \<Rightarrow> jsstring \<Rightarrow> DocumentChunk list option" where
  "createChunksFromDoc docId content' =
     (case recursiveCharacterSplit content' 500 50 of
        None \<Rightarrow> None
      | Some rawChunks \<Rightarrow>
          Some (map (\<lambda>(idx, text).
                  \<lparr>chunk_id = docId @ lit ''-chunk-'' @ number_to_string idx,
                   sourceId = docId,
                   content = js_trim text,
                   metadata = \<lparr>startIndex = idx, endIndex = idx + 1\<rparr>\<rparr>)
                (enumerate 0 rawChunks)))"

section \<open>The retriever: \<^verbatim>\<open>retrieveRelevantChunks\<close>\<close>

text \<open>The code units that \<^verbatim>\<open>\w\<close> matches: ASCII letters, digits and the underscore.\<close>

definition is_word :: "code_unit \<Rightarrow> bool" where
  "is_word c =
     ((0x30 \<le> c \<and> c \<le> 0x39) \<or> (0x41 \<le> c \<and> c \<le> 0x5A) \<or> c = 0x5F \<or>
      (0x61 \<le> c \<and> c \<le> 0x7A))"

text \<open>
  \<^verbatim>\<open>toLowerCase\<close> follows the Unicode case table, which is not part of the source.
  The model has the entries whose result contains a word character: A to Z, U+0130
  (to \<open>i\<close> and U+0307) and the Kelvin sign U+212A (to \<open>k\<close>). Every other code unit is
  left as it is: its lower case is neither a word character nor white space unless it is
  the unit itself, so after the \<^verbatim>\<open>replace\<close> that follows in \<open>tokenize\<close> nothing
  else of the table is visible.
\<close>

definition lower_unit :: "code_unit \<Rightarrow> jsstring" where
  "lower_unit c =
     (if 0x41 \<le> c \<and> c \<le> 0x5A then [c + 0x20]
      else if c = 0x130 then [0x69, 0x307]
      else if c = 0x212A then [0x6B]
      else [c])"

definition toLowerCase :: "jsstring \<Rightarrow> jsstring" where
  "toLowerCase s = concat (map lower_unit s)"

text \<open>\<^verbatim>\<open>s.replace(/[^\w\s]/g, '')\<close>.\<close>

definition remove_punctuation :: "jsstring \<Rightarrow> jsstring" where
  "remove_punctuation s = filter (\<lambda>c. is_word c \<or> is_space c) s"

text \<open>
  \<^verbatim>\<open>s.split(/\s+/)\<close>: the pieces between the maximal runs of white space. A run at
  the start or at the end of the string leaves an empty piece there, and the empty
  string gives one empty piece.
\<close>

function split_whitespace_from :: "jsstring \<Rightarrow> jsstring \<Rightarrow> jsstring list" where
  "split_whitespace_from piece [] = [piece]"
| "split_whitespace_from piece (c # cs) =
     (if is_space c then piece # split_whitespace_from [] (dropWhile is_space cs)
      else split_whitespace_from (piece @ [c]) cs)"
  by pat_completeness auto
termination
  by (relation "measure (\<lambda>(piece, rest). length rest)")
     (auto simp: length_dropWhile_le le_imp_less_Suc)

definition split_whitespace :: "jsstring \<Rightarrow> jsstring list" where
  "split_whitespace s = split_whitespace_from [] s"

text \<open>
  A \<^verbatim>\<open>Set\<close> of strings is the list of its elements in insertion order, without
  repetition: \<^verbatim>\<open>new Set(xs)\<close> adds the elements of \<open>xs\<close> one after the other,
  \<^verbatim>\<open>size\<close> is the length and \<^verbatim>\<open>has\<close> is membership.
\<close>

type_synonym token_set = "jsstring list"

definition set_add :: "jsstring \<Rightarrow> token_set \<Rightarrow> token_set" where
  "set_add x s = (if x \<in> set s then s else s @ [x])"

definition new_Set :: "jsstring list \<Rightarrow> token_set" where
  "new_Set xs = fold set_add xs []"

definition tokenize :: "jsstring \<Rightarrow> token_set" where
  "tokenize text =
     new_Set (filter (\<lambda>w. length w > 2)
                (split_whitespace (remove_punctuation (toLowerCase text))))"

text \<open>
  Scores are JavaScript numbers. The two sizes and the overlap are small integers, and
  their quotient is modelled as the exact rational; \<^verbatim>\<open>d || 1\<close> is 1 when \<open>d\<close> is 0.
\<close>

definition calculateScore :: "token_set \<Rightarrow> token_set \<Rightarrow> rat" where
  "calculateScore queryTokens chunkTokens =
     (let overlap = fold (\<lambda>qt overlap. if qt \<in> set chunkTokens then overlap + 1 else overlap)
                      queryTokens (0::int);
          d = int (length queryTokens) + int (length chunkTokens) - overlap
      in of_int overlap / of_int (if d = 0 then 1 else d))"

record scored =
  chunk :: DocumentChunk
  score :: rat

text \<open>
  \<^verbatim>\<open>Array.prototype.sort\<close> with a comparison function: the sort is stable (ECMAScript
  2019), so for a consistent comparison its result is that of insertion sort, where an
  element goes before the first one it does not compare greater than.
\<close>

fun sort_insert :: "('a \<Rightarrow> 'a \<Rightarrow> rat) \<Rightarrow> 'a \<Rightarrow> 'a list \<Rightarrow> 'a list" where
  "sort_insert cmp x [] = [x]"
| "sort_insert cmp x (y # ys) =
     (if cmp x y \<le> 0 then x # y # ys else y # sort_insert cmp x ys)"

fun js_sort :: "('a \<Rightarrow> 'a \<Rightarrow> rat) \<Rightarrow> 'a list \<Rightarrow> 'a list" where
  "js_sort cmp [] = []"
| "js_sort cmp (x # xs) = sort_insert cmp x (js_sort cmp xs)"

definition retrieveRelevantChunks ::
    "jsstring \<Rightarrow> DocumentChunk list \<Rightarrow> int \<Rightarrow> DocumentChunk list" where
  "retrieveRelevantChunks query allChunks topK =
     (if length allChunks = 0 then []
      else
        let queryTokens = tokenize query;
            scoredChunks =
              map (\<lambda>c. \<lparr>chunk = c,
                          score = calculateScore queryTokens (tokenize (content c))\<rparr>)
                allChunks;
            sortedChunks = js_sort (\<lambda>a b. score b - score a) scoredChunks
        in map chunk (js_slice sortedChunks 0 topK))"

text \<open>
  The score that the callback of \<^verbatim>\<open>allChunks.map\<close> gives to a chunk.
\<close>

definition chunk_score :: "jsstring \<Rightarrow> DocumentChunk \<Rightarrow> rat" where
  "chunk_score query c = calculateScore (tokenize query) (tokenize (content c))"

text \<open>The two chunks of Scenario B of the specification.\<close>

definition scenario_c1 :: DocumentChunk where
  "scenario_c1 =
     \<lparr>chunk_id = lit ''c1'', sourceId = lit ''doc'',
      content = lit ''MySQL connection pooling and timeouts'',
      metadata = \<lparr>startIndex = 0, endIndex = 1\<rparr>\<rparr>"

definition scenario_c2 :: DocumentChunk where
  "scenario_c2 =
     \<lparr>chunk_id = lit ''c2'', sourceId = lit ''doc'',
      content = lit ''Unrelated deployment rollback guide'',
      metadata = \<lparr>startIndex = 1, endIndex = 2\<rparr>\<rparr>"

section \<open>The token set in the words of the specification\<close>

text \<open>
  Splitting on runs of white space: the maximal runs of characters that are not white
  space.
\<close>

function words_of :: "jsstring \<Rightarrow> jsstring list" where
  "words_of s =
     (case dropWhile is_space s of
        [] \<Rightarrow> []
      | c # cs \<Rightarrow> takeWhile (\<lambda>u. \<not> is_space u) (c # cs) #
                 words_of (dropWhile (\<lambda>u. \<not> is_space u) (c # cs)))"
  by pat_completeness auto
termination
proof (relation "measure length")
  show "wf (measure length)"
    by simp
next
  fix s :: jsstring and c cs
  assume d: "dropWhile is_space s = c # cs"
  have "\<not> is_space c"
    using d hd_dropWhile [of is_space s] by auto
  then have "length (dropWhile (\<lambda>u. \<not> is_space u) (c # cs)) \<le> length cs"
    by (simp add: length_dropWhile_le)
  also have "\<dots> < length (dropWhile is_space s)"
    using d by simp
  also have "\<dots> \<le> length s"
    by (rule length_dropWhile_le)
  finally show "(dropWhile (\<lambda>u. \<not> is_space u) (c # cs), s) \<in> measure length"
    by simp
qed

declare words_of.simps [simp del]

text \<open>
  Lower-case the input, strip the characters that are neither word characters nor white
  space, split on runs of white space, drop the tokens of length at most 2, and take the
  set of what remains.
\<close>

definition spec_tokens :: "jsstring \<Rightarrow> jsstring set" where
  "spec_tokens text =
     set (filter (\<lambda>w. \<not> length w \<le> 2)
            (words_of (remove_punctuation (toLowerCase text))))"

section \<open>Termination and the size bound of the chunker\<close>

declare splitText.simps [simp del]
declare hardSplitReached.simps [simp del]

lemma length_separators: "length separators = 4"
  by (simp add: separators_def)

lemma js_slice_length: "0 \<le> cs \<Longrightarrow> int (length (js_slice s i (i + cs))) \<le> cs"
  by (auto simp: js_slice_def Let_def min_def max_def)

text \<open>
  With a step of at least 1 the hard-split loop returns from every state: the distance
  from \<open>i\<close> to the end of the text decreases in every round.
\<close>

lemma hardSplitLoop_returns:
  assumes "co < cs"
  shows "\<exists>r. hardSplitLoop t cs co i acc = Some r"
proof (induction "nat (int (length t) - i)" arbitrary: i acc rule: less_induct)
  case less
  show ?case
  proof (cases "i < int (length t)")
    case True
    have "nat (int (length t) - (i + (cs - co))) < nat (int (length t) - i)"
      using True assms by linarith
    then obtain r where
      "hardSplitLoop t cs co (i + (cs - co)) (acc @ [js_slice t i (i + cs)]) = Some r"
      using less.hyps by blast
    then show ?thesis
      using True by (subst hardSplitLoop.simps) simp
  next
    case False
    then show ?thesis
      by (subst hardSplitLoop.simps) simp
  qed
qed

lemma hardSplitLoop_bounded:
  assumes "co < cs" and "0 \<le> cs"
  shows "(\<forall>c\<in>set acc. int (length c) \<le> cs) \<Longrightarrow>
         \<exists>r. hardSplitLoop t cs co i acc = Some r \<and> (\<forall>c\<in>set r. int (length c) \<le> cs)"
proof (induction "nat (int (length t) - i)" arbitrary: i acc rule: less_induct)
  case less
  show ?case
  proof (cases "i < int (length t)")
    case True
    have "nat (int (length t) - (i + (cs - co))) < nat (int (length t) - i)"
      using True assms by linarith
    moreover have "\<forall>c\<in>set (acc @ [js_slice t i (i + cs)]). int (length c) \<le> cs"
      using less.prems js_slice_length [OF assms(2)] by auto
    ultimately obtain r where
      "hardSplitLoop t cs co (i + (cs - co)) (acc @ [js_slice t i (i + cs)]) = Some r"
      "\<forall>c\<in>set r. int (length c) \<le> cs"
      using less.hyps by blast
    then show ?thesis
      using True by (subst hardSplitLoop.simps) simp
  next
    case False
    then show ?thesis
      using less.prems by (subst hardSplitLoop.simps) simp
  qed
qed

lemma concat_results_map_Some:
  "(\<And>x. x \<in> set xs \<Longrightarrow> \<exists>r. f x = Some r \<and> (\<forall>c\<in>set r. P c)) \<Longrightarrow>
   \<exists>r. concat_results (map f xs) = Some r \<and> (\<forall>c\<in>set r. P c)"
proof (induction xs)
  case Nil
  then show ?case by simp
next
  case (Cons x xs)
  obtain r1 where r1: "f x = Some r1" "\<forall>c\<in>set r1. P c"
    using Cons.prems by fastforce
  obtain r2 where r2: "concat_results (map f xs) = Some r2" "\<forall>c\<in>set r2. P c"
    using Cons by fastforce
  show ?case using r1 r2 by auto
qed

lemma splitText_unfold:
  "splitText cs co t idx =
     (if int (length t) \<le> cs then Some [t]
      else if length separators \<le> idx then hardSplitLoop t cs co 0 []
      else concat_results
             (map (\<lambda>chunk. if cs < int (length chunk)
                            then splitText cs co chunk (idx + 1) else Some [chunk])
                (goodSplits_of cs t idx)))"
  by (subst splitText.simps) (simp add: goodSplits_of_def Let_def)

text \<open>The induction rule of \<open>splitText\<close>, with \<open>goodSplits\<close> folded.\<close>

lemma splitText_induct [case_names step]:
  fixes P :: "int \<Rightarrow> int \<Rightarrow> jsstring \<Rightarrow> nat \<Rightarrow> bool"
  assumes "\<And>cs co t idx.
     (\<And>chunk. \<not> int (length t) \<le> cs \<Longrightarrow> idx < length separators \<Longrightarrow>
        chunk \<in> set (goodSplits_of cs t idx) \<Longrightarrow> cs < int (length chunk) \<Longrightarrow>
        P cs co chunk (idx + 1)) \<Longrightarrow> P cs co t idx"
  shows "P cs co t idx"
proof (induction cs co t idx rule: splitText.induct)
  case (1 cs co t idx)
  show ?case
    by (rule assms) (rule "1.IH", auto simp: goodSplits_of_def Let_def)
qed

lemma splitText_bounded:
  assumes "co < cs" and "0 \<le> cs"
  shows "\<exists>r. splitText cs co t idx = Some r \<and> (\<forall>c\<in>set r. int (length c) \<le> cs)"
  using assms
proof (induction cs co t idx rule: splitText_induct)
  case (step cs co t idx)
  show ?case
  proof (cases "int (length t) \<le> cs \<or> length separators \<le> idx")
    case True
    then show ?thesis
      using hardSplitLoop_bounded [OF step.prems, where acc="[]" and t=t and i=0]
      by (auto simp: splitText_unfold)
  next
    case False
    have "\<exists>r. concat_results
               (map (\<lambda>chunk. if cs < int (length chunk)
                              then splitText cs co chunk (idx + 1) else Some [chunk])
                  (goodSplits_of cs t idx)) = Some r \<and> (\<forall>c\<in>set r. int (length c) \<le> cs)"
    proof (rule concat_results_map_Some)
      fix x assume "x \<in> set (goodSplits_of cs t idx)"
      then show "\<exists>r. (if cs < int (length x) then splitText cs co x (idx + 1)
                      else Some [x]) = Some r \<and> (\<forall>c\<in>set r. int (length c) \<le> cs)"
        using step.IH [of x] step.prems False by auto
    qed
    then show ?thesis
      using False by (subst splitText_unfold) simp
  qed
qed

text \<open>
  Claim C1. For every input text and every valid configuration, the call returns and
  every chunk of the returned sequence has length at most \<open>chunkSize\<close>; this covers
  the chunks of the hard-split branch.
\<close>

theorem chunk_length_bound:
  assumes "valid_config chunkSize chunkOverlap"
  shows "\<exists>chunks. recursiveCharacterSplit text chunkSize chunkOverlap = Some chunks \<and>
                 (\<forall>c\<in>set chunks. int (length c) \<le> chunkSize)"
  using assms splitText_bounded [of chunkOverlap chunkSize "text" 0]
  by (simp add: recursiveCharacterSplit_def valid_config_def)

theorem chunk_length_bound_witness:
  "valid_config 30 5 \<and>
   (\<exists>chunks. recursiveCharacterSplit
      (lit ''Paragraph one.'' @ [LF, LF] @
       lit ''Paragraph two is much longer than the chunk size and will need splitting across line and word boundaries.'')
      30 5 = Some chunks \<and> (\<forall>c\<in>set chunks. int (length c) \<le> 30)) \<and>
   valid_config 1 0 \<and>
   (\<exists>chunks. recursiveCharacterSplit [0xD83D, 0xDE00] 1 0 = Some chunks \<and>
      (\<forall>c\<in>set chunks. int (length c) \<le> 1))"
proof -
  have v: "valid_config 30 5" and w: "valid_config 1 0"
    by (simp_all add: valid_config_def)
  show ?thesis
    using v w chunk_length_bound [OF v] chunk_length_bound [OF w] by simp
qed

text \<open>
  Claim C2. For every input string and every valid configuration, \<open>chunkSize = 1\<close>
  included, \<^verbatim>\<open>recursiveCharacterSplit\<close> returns. The recursion over the separator
  hierarchy is well-founded (the termination proof of \<open>splitText\<close>); the step of the
  hard-split loop is at least 1, and the loop returns from every state.
\<close>

theorem split_terminates:
  assumes "valid_config chunkSize chunkOverlap"
  shows "(\<exists>chunks. recursiveCharacterSplit text chunkSize chunkOverlap = Some chunks) \<and>
         1 \<le> chunkSize - chunkOverlap \<and>
         (\<forall>currentText i hardChunks.
            \<exists>r. hardSplitLoop currentText chunkSize chunkOverlap i hardChunks = Some r)"
proof -
  have lt: "chunkOverlap < chunkSize" and nn: "0 \<le> chunkSize"
    using assms by (simp_all add: valid_config_def)
  have "\<exists>chunks. recursiveCharacterSplit text chunkSize chunkOverlap = Some chunks"
    using splitText_bounded [OF lt nn, of "text" 0] by (auto simp: recursiveCharacterSplit_def)
  moreover have "1 \<le> chunkSize - chunkOverlap"
    using lt by simp
  ultimately show ?thesis
    using hardSplitLoop_returns [OF lt] by blast
qed

theorem split_terminates_witness:
  "valid_config 1 0 \<and>
   (\<exists>chunks. recursiveCharacterSplit (lit ''ab cd'') 1 0 = Some chunks) \<and>
   (\<exists>r. hardSplitLoop [0xD83D, 0xDE00] 1 0 0 [] = Some r)"
proof -
  have v: "valid_config 1 0"
    by (simp add: valid_config_def)
  show ?thesis
    using v split_terminates [OF v, of "lit ''ab cd''"] by blast
qed

section \<open>When the hard split is reached\<close>

lemma recombine_acc:
  "recombine cs sep splits gs cur = gs @ recombine cs sep splits [] cur"
proof (induction splits arbitrary: gs cur)
  case Nil
  then show ?case by simp
next
  case (Cons s splits)
  show ?case
    using Cons [of gs] Cons [of "gs @ [cur]"] Cons [of "[cur]"]
    by (simp add: Let_def)
qed

lemma recombine_elems:
  "c \<in> set (recombine cs sep splits [] cur) \<Longrightarrow>
   c \<noteq> [] \<and> (int (length c) < cs \<or> c \<in> set splits \<or> c = cur)"
proof (induction splits arbitrary: cur)
  case Nil
  then show ?case by (simp split: if_splits)
next
  case (Cons s splits)
  let ?p = "if length cur > 0 then cur @ sep @ s else s"
  show ?case
  proof (cases "int (length ?p) < cs")
    case True
    then have "c \<in> set (recombine cs sep splits [] ?p)"
      using Cons.prems by (simp add: Let_def)
    from Cons.IH [OF this] True show ?thesis by auto
  next
    case False
    then have "c \<in> set ((if cur \<noteq> [] then [cur] else []) @ recombine cs sep splits [] s)"
      using Cons.prems recombine_acc [of cs sep splits "[cur]" s]
      by (auto simp: Let_def split: if_splits)
    then consider "c = cur" "cur \<noteq> []" | "c \<in> set (recombine cs sep splits [] s)"
      by (auto split: if_splits)
    then show ?thesis
    proof cases
      case 1
      then show ?thesis by simp
    next
      case 2
      from Cons.IH [OF this] show ?thesis by auto
    qed
  qed
qed

lemma not_lead_and_trail: "\<not> (is_lead c \<and> is_trail c)"
  by (auto simp: is_lead_def is_trail_def word_le_nat_alt)

lemma array_from_elems:
  "p \<in> set (array_from t) \<Longrightarrow>
   length p = 1 \<or> (length p = 2 \<and> has_surrogate_pair t)"
  by (induction t rule: array_from.induct) (auto split: if_splits)

lemma concat_array_from: "concat (array_from t) = t"
  by (induction t rule: array_from.induct) auto

lemma has_surrogate_pair_append:
  "has_surrogate_pair a \<or> has_surrogate_pair b \<Longrightarrow> has_surrogate_pair (a @ b)"
proof (induction a rule: has_surrogate_pair.induct)
  case 1
  then show ?case by simp
next
  case (2 c)
  then show ?case by (cases b) auto
next
  case (3 c d cs)
  then show ?case by auto
qed

lemma has_surrogate_pair_skip:
  "has_surrogate_pair (sep @ b) \<Longrightarrow> \<forall>u\<in>set sep. \<not> is_lead u \<Longrightarrow> has_surrogate_pair b"
proof (induction sep)
  case Nil
  then show ?case by simp
next
  case (Cons u sep)
  then show ?case by (cases "sep @ b") auto
qed

lemma has_surrogate_pair_join:
  assumes "has_surrogate_pair (a @ sep @ b)" and "sep \<noteq> []"
    and "\<forall>u\<in>set sep. \<not> is_lead u \<and> \<not> is_trail u"
  shows "has_surrogate_pair a \<or> has_surrogate_pair b"
  using assms(1)
proof (induction a rule: has_surrogate_pair.induct)
  case 1
  then show ?case using has_surrogate_pair_skip assms(3) by auto
next
  case (2 c)
  obtain u sep' where sep: "sep = u # sep'"
    using assms(2) by (cases sep) auto
  then have "\<not> is_trail u" using assms(3) by simp
  then have "has_surrogate_pair (sep @ b)"
    using 2 sep by simp
  then show ?case using has_surrogate_pair_skip assms(3) by blast
next
  case (3 c d cs)
  then show ?case by auto
qed

lemma js_split_from_no_pair:
  "\<not> has_surrogate_pair (piece @ rest) \<Longrightarrow> p \<in> set (js_split_from sep piece rest) \<Longrightarrow>
   \<not> has_surrogate_pair p"
proof (induction sep piece rest rule: js_split_from.induct)
  case (1 sep piece)
  then show ?case by simp
next
  case (2 sep piece c cs)
  show ?case
  proof (cases "sep \<noteq> [] \<and> prefix sep (c # cs)")
    case True
    have np: "\<not> has_surrogate_pair piece" and nr: "\<not> has_surrogate_pair (c # cs)"
      using "2.prems"(1) has_surrogate_pair_append by blast+
    have "c # cs = take (length sep) (c # cs) @ drop (length sep) (c # cs)"
      by simp
    then have "\<not> has_surrogate_pair (drop (length sep) (c # cs))"
      using nr has_surrogate_pair_append by metis
    then show ?thesis
      using True "2.IH"(1) [OF True] "2.prems"(2) np by auto
  next
    case False
    then show ?thesis
      using "2.IH"(2) [OF False] "2.prems" by auto
  qed
qed

lemma recombine_no_pair:
  assumes "sep \<noteq> []" and "\<forall>u\<in>set sep. \<not> is_lead u \<and> \<not> is_trail u"
  shows "\<not> has_surrogate_pair cur \<Longrightarrow> \<forall>s\<in>set splits. \<not> has_surrogate_pair s \<Longrightarrow>
         c \<in> set (recombine cs sep splits [] cur) \<Longrightarrow> \<not> has_surrogate_pair c"
proof (induction splits arbitrary: cur)
  case Nil
  then show ?case by (simp split: if_splits)
next
  case (Cons s splits)
  let ?p = "if length cur > 0 then cur @ sep @ s else s"
  have p: "\<not> has_surrogate_pair ?p"
    using Cons.prems(1,2) has_surrogate_pair_join [OF _ assms] by auto
  show ?case
  proof (cases "int (length ?p) < cs")
    case True
    then have "c \<in> set (recombine cs sep splits [] ?p)"
      using Cons.prems(3) by (simp add: Let_def)
    then show ?thesis
      using Cons.IH [OF p] Cons.prems(2) by simp
  next
    case False
    then have "c \<in> set ((if cur \<noteq> [] then [cur] else []) @ recombine cs sep splits [] s)"
      using Cons.prems(3) recombine_acc [of cs sep splits "[cur]" s]
      by (auto simp: Let_def split: if_splits)
    then show ?thesis
      using Cons.IH [of s] Cons.prems(1,2) by (auto split: if_splits)
  qed
qed

lemma separators_cases:
  "idx < length separators \<Longrightarrow>
   (idx = 3 \<and> separators ! idx = []) \<or>
   (idx < 3 \<and> separators ! idx \<noteq> [] \<and> (\<forall>u\<in>set (separators ! idx). separator_unit u))"
  by (auto simp: separators_def separator_unit_def nth_Cons' less_Suc_eq numeral_eq_Suc)

lemma separator_unit_not_surrogate:
  "separator_unit u \<Longrightarrow> \<not> is_lead u \<and> \<not> is_trail u"
  by (auto simp: separator_unit_def LF_def SP_def is_lead_def is_trail_def)

lemma goodSplits_no_pair:
  assumes "idx < 3" and "\<not> has_surrogate_pair t" and "c \<in> set (goodSplits_of cs t idx)"
  shows "\<not> has_surrogate_pair c"
proof -
  let ?sep = "separators ! idx"
  have sep: "?sep \<noteq> []" "\<forall>u\<in>set ?sep. \<not> is_lead u \<and> \<not> is_trail u"
    using separators_cases [of idx] assms(1) separator_unit_not_surrogate
    by (auto simp: length_separators)
  have "\<forall>s\<in>set (js_split t ?sep). \<not> has_surrogate_pair s"
    using js_split_from_no_pair [of "[]" t _ ?sep] assms(2) by (simp add: js_split_def)
  then show ?thesis
    using recombine_no_pair [OF sep, of "[]" "js_split t ?sep" c cs] assms(3) sep(1)
    by (simp add: goodSplits_of_def Let_def)
qed

lemma goodSplits_last_level:
  assumes "c \<in> set (goodSplits_of cs t 3)"
  shows "int (length c) < cs \<or> length c = 1 \<or> (length c = 2 \<and> has_surrogate_pair t)"
proof -
  have "c \<in> set (recombine cs [] (array_from t) [] [])"
    using assms by (simp add: goodSplits_of_def separators_def)
  from recombine_elems [OF this] show ?thesis
    using array_from_elems [of c t] by auto
qed

lemma hardSplitReached_unfold:
  "hardSplitReached cs t idx =
     (if int (length t) \<le> cs then False
      else if length separators \<le> idx then True
      else \<exists>chunk\<in>set (goodSplits_of cs t idx).
             cs < int (length chunk) \<and> hardSplitReached cs chunk (idx + 1))"
  by (subst hardSplitReached.simps) (auto simp: list_ex_iff)

lemma hard_split_not_reached:
  assumes "1 \<le> cs" and "2 \<le> cs \<or> \<not> has_surrogate_pair t" and "idx \<le> 3"
  shows "\<not> hardSplitReached cs t idx"
  using assms
proof (induction cs t idx rule: hardSplitReached.induct)
  case (1 cs t idx)
  have "\<not> hardSplitReached cs chunk (idx + 1)"
    if chunk: "chunk \<in> set (goodSplits_of cs t idx)" and big: "cs < int (length chunk)"
      and t: "\<not> int (length t) \<le> cs" for chunk
  proof (cases "idx = 3")
    case True
    then show ?thesis
      using goodSplits_last_level [of chunk cs t] chunk big "1.prems" by auto
  next
    case False
    then have idx: "idx < 3" using "1.prems"(3) by simp
    have "2 \<le> cs \<or> \<not> has_surrogate_pair chunk"
      using "1.prems"(2) goodSplits_no_pair [OF idx _ chunk] by blast
    then show ?thesis
      using "1.IH" [OF t _ chunk big "1.prems"(1)] idx by (simp add: length_separators)
  qed
  then show ?case
    using "1.prems"(3) by (subst hardSplitReached_unfold) (auto simp: length_separators)
qed

lemma concat_results_cong:
  "(\<And>x. x \<in> set xs \<Longrightarrow> f x = g x) \<Longrightarrow> concat_results (map f xs) = concat_results (map g xs)"
proof (induction xs)
  case Nil
  then show ?case by simp
next
  case (Cons x xs)
  have "f x = g x" and "concat_results (map f xs) = concat_results (map g xs)"
    using Cons by simp_all
  then show ?case by (simp split: option.splits)
qed

lemma splitText_overlap_irrelevant:
  "\<not> hardSplitReached cs t idx \<Longrightarrow> splitText cs o1 t idx = splitText cs o2 t idx"
proof (induction cs o1 t idx rule: splitText_induct)
  case (step cs o1 t idx)
  show ?case
  proof (cases "int (length t) \<le> cs")
    case True
    then show ?thesis by (simp add: splitText_unfold)
  next
    case False
    have unf: "\<not> (if int (length t) \<le> cs then False
      else if length separators \<le> idx then True
      else \<exists>chunk\<in>set (goodSplits_of cs t idx).
             cs < int (length chunk) \<and> hardSplitReached cs chunk (idx + 1))"
      using step.prems hardSplitReached_unfold [of cs t idx] by blast
    have idx: "\<not> length separators \<le> idx"
      using unf False by (simp split: if_splits)
    have sub: "\<forall>chunk\<in>set (goodSplits_of cs t idx).
                  cs < int (length chunk) \<longrightarrow> \<not> hardSplitReached cs chunk (idx + 1)"
      using unf False idx by simp
    have "concat_results
            (map (\<lambda>chunk. if cs < int (length chunk)
                           then splitText cs o1 chunk (idx + 1) else Some [chunk])
               (goodSplits_of cs t idx)) =
          concat_results
            (map (\<lambda>chunk. if cs < int (length chunk)
                           then splitText cs o2 chunk (idx + 1) else Some [chunk])
               (goodSplits_of cs t idx))"
      using step.IH sub False idx by (intro concat_results_cong) auto
    then show ?thesis
      using False idx
      by (subst splitText_unfold [of cs o1 t idx], subst splitText_unfold [of cs o2 t idx]) simp
  qed
qed


lemma hardSplitLoop_diverges:
  assumes "hardSplitLoop t cs co i acc = Some r"
  shows "\<not> (cs \<le> co \<and> i < int (length t))"
  using assms
proof (induction rule: hardSplitLoop.raw_induct [rotated 1, consumes 1])
  case (1 f t cs co i acc r)
  show ?case
  proof
    assume a: "cs \<le> co \<and> i < int (length t)"
    then have "f t cs co (i + (cs - co)) (acc @ [js_slice t i (i + cs)]) = Some r"
      using 1(2) by simp
    from 1(1) [OF this] a show False by simp
  qed
qed


lemma concat_results_None:
  "x \<in> set xs \<Longrightarrow> f x = None \<Longrightarrow> concat_results (map f xs) = None"
  by (induction xs) (auto split: option.splits)

text \<open>
  When the hard split is reached with a step that is not positive, the call does not
  return.
\<close>

lemma splitText_diverges:
  assumes "0 \<le> cs" and "cs \<le> co" and "hardSplitReached cs t idx"
  shows "splitText cs co t idx = None"
  using assms
proof (induction cs co t idx rule: splitText_induct)
  case (step cs co t idx)
  have unf: "if int (length t) \<le> cs then False
      else if length separators \<le> idx then True
      else \<exists>chunk\<in>set (goodSplits_of cs t idx).
             cs < int (length chunk) \<and> hardSplitReached cs chunk (idx + 1)"
    using step.prems(3) hardSplitReached_unfold [of cs t idx] by blast
  then have big: "\<not> int (length t) \<le> cs"
    by (simp split: if_splits)
  show ?case
  proof (cases "length separators \<le> idx")
    case True
    have "hardSplitLoop t cs co 0 [] = None"
    proof (rule ccontr)
      assume "hardSplitLoop t cs co 0 [] \<noteq> None"
      then obtain r where "hardSplitLoop t cs co 0 [] = Some r"
        by auto
      from hardSplitLoop_diverges [OF this] show False
        using big step.prems(1,2) by simp
    qed
    then show ?thesis
      using big True by (subst splitText_unfold) simp
  next
    case False
    then obtain chunk where chunk: "chunk \<in> set (goodSplits_of cs t idx)"
        "cs < int (length chunk)" "hardSplitReached cs chunk (idx + 1)"
      using unf big by auto
    have "splitText cs co chunk (idx + 1) = None"
      using step.IH [OF big _ chunk(1,2) step.prems(1,2) chunk(3)] False by simp
    then have "concat_results
            (map (\<lambda>chunk. if cs < int (length chunk)
                           then splitText cs co chunk (idx + 1) else Some [chunk])
               (goodSplits_of cs t idx)) = None"
      using chunk(1,2) by (intro concat_results_None [of chunk]) simp_all
    then show ?thesis
      using big False by (subst splitText_unfold) simp
  qed
qed

text \<open>
  The call returns whenever the step is positive or the hard split is not reached.
\<close>

lemma splitText_returns:
  assumes "co < cs \<or> \<not> hardSplitReached cs t idx"
  shows "\<exists>r. splitText cs co t idx = Some r"
  using assms
proof (induction cs co t idx rule: splitText_induct)
  case (step cs co t idx)
  show ?case
  proof (cases "int (length t) \<le> cs")
    case True
    then show ?thesis by (simp add: splitText_unfold)
  next
    case big: False
    show ?thesis
    proof (cases "length separators \<le> idx")
      case True
      then have "co < cs"
        using step.prems big hardSplitReached_unfold [of cs t idx] by auto
      then show ?thesis
        using hardSplitLoop_returns [of co cs t 0 "[]"] big True
        by (subst splitText_unfold) simp
    next
      case False
      have sub: "co < cs \<or> \<not> hardSplitReached cs chunk (idx + 1)"
        if "chunk \<in> set (goodSplits_of cs t idx)" "cs < int (length chunk)" for chunk
        using step.prems that big False hardSplitReached_unfold [of cs t idx] by auto
      have "\<exists>r. concat_results
               (map (\<lambda>chunk. if cs < int (length chunk)
                              then splitText cs co chunk (idx + 1) else Some [chunk])
                  (goodSplits_of cs t idx)) = Some r \<and> (\<forall>c\<in>set r. True)"
      proof (rule concat_results_map_Some)
        fix x assume x: "x \<in> set (goodSplits_of cs t idx)"
        show "\<exists>r. (if cs < int (length x) then splitText cs co x (idx + 1)
                      else Some [x]) = Some r \<and> (\<forall>c\<in>set r. True)"
          using step.IH [OF big _ x] sub [OF x] False by auto
      qed
      then show ?thesis
        using big False by (subst splitText_unfold) simp
    qed
  qed
qed

text \<open>
  Claim C3, as stated, fails. The source has no configuration check and no
  InvalidConfiguration outcome: with \<open>chunkSize = chunkOverlap = 5\<close> the call returns
  an ordinary chunk list, and with \<open>chunkSize = chunkOverlap = 0\<close> on a non-empty text
  the hard-split loop has step 0 and the call does not return.
\<close>

theorem invalid_config_not_rejected:
  "\<not> valid_config 5 5 \<and>
   recursiveCharacterSplit (lit ''hello world'') 5 5 = Some [lit ''hello'', lit ''world''] \<and>
   \<not> valid_config 0 0 \<and>
   recursiveCharacterSplit (lit ''a'') 0 0 = None"
proof -
  have "recursiveCharacterSplit (lit ''hello world'') 5 5 = Some [lit ''hello'', lit ''world'']"
    by code_simp
  moreover have "hardSplitReached 0 (lit ''a'') 0"
    by code_simp
  then have "recursiveCharacterSplit (lit ''a'') 0 0 = None"
    using splitText_diverges [of 0 0 "lit ''a''" 0] by (simp add: recursiveCharacterSplit_def)
  ultimately show ?thesis
    by (simp add: valid_config_def)
qed

text \<open>
  Claim C3, amended. No configuration is rejected. The call returns a defined result
  for every text whenever \<open>chunkOverlap < chunkSize\<close>, which includes every valid
  configuration, and also whenever \<open>chunkSize\<close> is at least 2, whatever the overlap.
\<close>

theorem split_returns_without_validation:
  assumes "chunkOverlap < chunkSize \<or> 2 \<le> chunkSize"
  shows "\<exists>chunks. recursiveCharacterSplit text chunkSize chunkOverlap = Some chunks"
proof -
  have "chunkOverlap < chunkSize \<or> \<not> hardSplitReached chunkSize text 0"
    using assms hard_split_not_reached [of chunkSize "text" 0] by auto
  then show ?thesis
    using splitText_returns [of chunkOverlap chunkSize "text" 0]
    by (simp add: recursiveCharacterSplit_def)
qed

theorem split_returns_without_validation_witness:
  "((5::int) < 5 \<or> (2::int) \<le> 5) \<and>
   (\<exists>chunks. recursiveCharacterSplit (lit ''hello world'') 5 5 = Some chunks)"
  using split_returns_without_validation [of 5 5 "lit ''hello world''"] by simp

text \<open>
  Claim C10, as stated, fails at \<open>chunkSize = 1\<close> on a text with a surrogate pair (here
  U+1F600): \<^verbatim>\<open>Array.from\<close> keeps the pair together as a piece of length 2, which
  is longer than \<open>chunkSize\<close>, so the hard-split branch runs and the result depends on
  \<open>chunkOverlap\<close>.
\<close>

theorem hard_split_reached_on_surrogate_pair:
  "hardSplitReached 1 [0xD83D, 0xDE00] 0 \<and>
   recursiveCharacterSplit [0xD83D, 0xDE00] 1 0 = Some [[0xD83D], [0xDE00]] \<and>
   recursiveCharacterSplit [0xD83D, 0xDE00] 1 (- 1) = Some [[0xD83D]] \<and>
   recursiveCharacterSplit [0xD83D, 0xDE00] 1 1 = None"
proof -
  have r: "hardSplitReached 1 [0xD83D, 0xDE00] 0"
    by code_simp
  have "recursiveCharacterSplit [0xD83D, 0xDE00] 1 0 = Some [[0xD83D], [0xDE00]]"
    by code_simp
  moreover have "recursiveCharacterSplit [0xD83D, 0xDE00] 1 (- 1) = Some [[0xD83D]]"
    by code_simp
  moreover have "recursiveCharacterSplit [0xD83D, 0xDE00] 1 1 = None"
    using r splitText_diverges [of 1 1 "[0xD83D, 0xDE00]" 0]
    by (simp add: recursiveCharacterSplit_def)
  ultimately show ?thesis
    using r by simp
qed

text \<open>
  Claim C10, amended. For every text and every \<open>chunkSize\<close> of at least 2, and for
  \<open>chunkSize = 1\<close> when the text has no surrogate pair, the hard-split branch is never
  executed, and the result is the same for all overlap values.
\<close>

theorem overlap_irrelevant:
  assumes "1 \<le> chunkSize" and "2 \<le> chunkSize \<or> \<not> has_surrogate_pair text"
  shows "\<not> hardSplitReached chunkSize text 0 \<and>
         recursiveCharacterSplit text chunkSize o1 = recursiveCharacterSplit text chunkSize o2"
proof -
  have "\<not> hardSplitReached chunkSize text 0"
    using assms by (intro hard_split_not_reached) simp_all
  then show ?thesis
    using splitText_overlap_irrelevant [of chunkSize "text" 0 o1 o2]
    by (simp add: recursiveCharacterSplit_def)
qed

theorem overlap_irrelevant_witness:
  "(1::int) \<le> 1 \<and> ((2::int) \<le> 1 \<or> \<not> has_surrogate_pair (lit ''ab cd'')) \<and>
   \<not> hardSplitReached 1 (lit ''ab cd'') 0 \<and>
   recursiveCharacterSplit (lit ''ab cd'') 1 0 = recursiveCharacterSplit (lit ''ab cd'') 1 7"
proof -
  have np: "\<not> has_surrogate_pair (lit ''ab cd'')"
    by code_simp
  show ?thesis
    using np overlap_irrelevant [of 1 "lit ''ab cd''" 0 7] by simp
qed

section \<open>Content of the chunks\<close>

lemma js_slice_window:
  assumes "0 \<le> i" and "0 < cs"
  shows "js_slice t i (i + cs) @ drop (nat (i + cs)) t = drop (nat i) t"
proof -
  have "js_slice t i (i + cs) = take (nat cs) (drop (nat i) t)"
    using assms by (auto simp: js_slice_def Let_def min_def)
  moreover have "drop (nat (i + cs)) t = drop (nat cs) (drop (nat i) t)"
    using assms by (simp add: nat_add_distrib add.commute)
  ultimately show ?thesis
    using append_take_drop_id [of "nat cs" "drop (nat i) t"] by (simp del: drop_drop)
qed

lemma hardSplitLoop_concat:
  assumes "0 < cs"
  shows "0 \<le> i \<Longrightarrow> \<exists>r. hardSplitLoop t cs 0 i acc = Some r \<and> concat r = concat acc @ drop (nat i) t"
proof (induction "nat (int (length t) - i)" arbitrary: i acc rule: less_induct)
  case less
  show ?case
  proof (cases "i < int (length t)")
    case True
    have "nat (int (length t) - (i + (cs - 0))) < nat (int (length t) - i)"
      using True assms by linarith
    moreover have "0 \<le> i + (cs - 0)"
      using less.prems assms by simp
    ultimately obtain r where r:
      "hardSplitLoop t cs 0 (i + (cs - 0)) (acc @ [js_slice t i (i + cs)]) = Some r"
      "concat r = concat (acc @ [js_slice t i (i + cs)]) @ drop (nat (i + (cs - 0))) t"
      using less.hyps by blast
    have "concat r = concat acc @ drop (nat i) t"
      using r(2) js_slice_window [OF less.prems assms, of t] by simp
    then show ?thesis
      using True r(1) by (subst hardSplitLoop.simps) simp
  next
    case False
    then show ?thesis
      by (subst hardSplitLoop.simps) simp
  qed
qed

lemma covers_gap:
  assumes "\<forall>u\<in>set g. separator_unit u" and "covers chunks t"
  shows "covers chunks (g @ t)"
  using assms(2)
proof (cases rule: covers.cases)
  case covers_Nil
  then show ?thesis
    using assms(1) covers.covers_Nil [of "g @ t"] by auto
next
  case (covers_Cons g' rest t' c)
  have "covers (c # rest) ((g @ g') @ c @ t')"
    using assms(1) covers_Cons(3,4) by (intro covers.covers_Cons) auto
  then show ?thesis
    using covers_Cons(1,2) by simp
qed

lemma covers_append:
  "covers as s \<Longrightarrow> covers bs t \<Longrightarrow> covers (as @ bs) (s @ t)"
proof (induction rule: covers.induct)
  case (covers_Nil g)
  then show ?case by (simp add: covers_gap)
next
  case (covers_Cons g chunks t' c)
  then show ?case
    using covers.covers_Cons [of g "chunks @ bs" "t' @ t" c] by simp
qed

lemma covers_empty: "covers [] []"
  by (rule covers_Nil) simp

lemma covers_single: "covers [c] c"
  using covers_Cons [of "[]" "[]" "[]" c] covers_empty by simp

lemma covers_concat: "covers chunks (concat chunks)"
proof (induction chunks)
  case Nil
  then show ?case by (simp add: covers_empty)
next
  case (Cons c chunks)
  then show ?case
    using covers_Cons [of "[]" chunks "concat chunks" c] by simp
qed

lemma covers_interleave:
  "covers chunks t \<Longrightarrow>
   \<exists>gaps. length gaps = length chunks + 1 \<and> (\<forall>g\<in>set gaps. \<forall>u\<in>set g. separator_unit u) \<and>
          t = interleave gaps chunks"
proof (induction rule: covers.induct)
  case (covers_Nil g)
  show ?case
    by (rule exI [of _ "[g]"]) (use covers_Nil in simp)
next
  case (covers_Cons g chunks t c)
  then obtain gaps where "length gaps = length chunks + 1"
      "\<forall>g\<in>set gaps. \<forall>u\<in>set g. separator_unit u" "t = interleave gaps chunks"
    by blast
  then show ?case
    using covers_Cons(1) by (intro exI [of _ "g # gaps"]) simp
qed

lemma js_split_from_nonempty: "js_split_from sep piece rest \<noteq> []"
  by (induction sep piece rest rule: js_split_from.induct) auto

lemma js_join_split_from:
  "sep \<noteq> [] \<Longrightarrow> js_join sep (js_split_from sep piece rest) = piece @ rest"
proof (induction sep piece rest rule: js_split_from.induct)
  case (1 sep piece)
  then show ?case by simp
next
  case (2 sep piece c cs)
  show ?case
  proof (cases "prefix sep (c # cs)")
    case True
    then obtain d where d: "c # cs = sep @ d"
      by (auto simp: prefix_def)
    have dr: "drop (length sep) (c # cs) = d"
      unfolding d by simp
    obtain p ps where ps: "js_split_from sep [] d = p # ps"
      using js_split_from_nonempty [of sep "[]" d] by (cases "js_split_from sep [] d") auto
    have "js_join sep (js_split_from sep [] d) = d"
      using "2.IH"(1) "2.prems" True dr by simp
    then have "js_join sep (piece # js_split_from sep [] d) = piece @ sep @ d"
      by (simp add: ps)
    moreover have "js_split_from sep piece (c # cs) = piece # js_split_from sep [] d"
      using True "2.prems" dr by simp
    ultimately show ?thesis
      by (simp only: d)
  next
    case False
    then show ?thesis
      using "2.IH"(2) "2.prems" by simp
  qed
qed

lemma js_join_Cons: "js_join sep (s # rest) = s @ concat (map (\<lambda>x. sep @ x) rest)"
  by (induction rest arbitrary: s) simp_all

lemma recombine_first:
  "recombine cs sep (s # splits) [] [] = recombine cs sep splits [] s"
  by (simp add: Let_def)

lemma recombine_covers:
  assumes "\<forall>u\<in>set sep. separator_unit u"
  shows "covers (recombine cs sep splits [] cur) (cur @ concat (map (\<lambda>x. sep @ x) splits))"
proof (induction splits arbitrary: cur)
  case Nil
  then show ?case
    by (simp add: covers_single covers_empty)
next
  case (Cons s splits)
  let ?tail = "concat (map (\<lambda>x. sep @ x) splits)"
  let ?p = "if length cur > 0 then cur @ sep @ s else s"
  show ?case
  proof (cases "cur = []")
    case True
    then have "recombine cs sep (s # splits) [] cur = recombine cs sep splits [] s"
      by (simp add: Let_def)
    moreover have "covers (recombine cs sep splits [] s) (sep @ s @ ?tail)"
      using covers_gap [OF assms Cons.IH [of s]] .
    ultimately show ?thesis
      using True by simp
  next
    case False
    show ?thesis
    proof (cases "int (length ?p) < cs")
      case True
      then have "recombine cs sep (s # splits) [] cur =
                 recombine cs sep splits [] (cur @ sep @ s)"
        using False by (simp add: Let_def)
      then show ?thesis
        using Cons.IH [of "cur @ sep @ s"] by simp
    next
      case big: False
      then have "recombine cs sep (s # splits) [] cur = cur # recombine cs sep splits [] s"
        using False recombine_acc [of cs sep splits "[cur]" s] by (simp add: Let_def)
      moreover have "covers (cur # recombine cs sep splits [] s) ([] @ cur @ sep @ s @ ?tail)"
        using covers_gap [OF assms Cons.IH [of s]] by (intro covers_Cons) simp_all
      ultimately show ?thesis
        by simp
    qed
  qed
qed

lemma goodSplits_covers:
  assumes "idx < length separators"
  shows "covers (goodSplits_of cs t idx) t"
proof -
  let ?sep = "separators ! idx"
  let ?splits = "if ?sep = [] then array_from t else js_split t ?sep"
  have sep: "\<forall>u\<in>set ?sep. separator_unit u"
    using separators_cases [OF assms] by auto
  have join: "js_join ?sep ?splits = t"
  proof (cases "?sep = []")
    case True
    have "js_join [] xs = concat xs" for xs :: "jsstring list"
      by (cases xs) (simp_all add: js_join_Cons)
    then show ?thesis
      using True by (simp add: concat_array_from)
  next
    case False
    then show ?thesis
      using js_join_split_from [of ?sep "[]" t] by (simp add: js_split_def)
  qed
  have "covers (recombine cs ?sep ?splits [] []) (js_join ?sep ?splits)"
  proof (cases ?splits)
    case Nil
    then show ?thesis by (simp add: covers_empty)
  next
    case (Cons s rest)
    then show ?thesis
      using recombine_covers [OF sep, of cs rest s]
      by (simp only: recombine_first js_join_Cons)
  qed
  then show ?thesis
    unfolding join by (simp add: goodSplits_of_def Let_def)
qed

lemma concat_results_covers:
  assumes "covers good t"
    and "\<And>c. c \<in> set good \<Longrightarrow> \<exists>r. f c = Some r \<and> covers r c"
  shows "\<exists>r. concat_results (map f good) = Some r \<and> covers r t"
  using assms
proof (induction rule: covers.induct)
  case (covers_Nil g)
  then show ?case
    by (simp add: covers.covers_Nil)
next
  case (covers_Cons g chunks t c)
  obtain r1 where r1: "f c = Some r1" "covers r1 c"
    using covers_Cons.prems [of c] by auto
  have "\<exists>r. concat_results (map f chunks) = Some r \<and> covers r t"
    by (rule covers_Cons.IH) (simp add: covers_Cons.prems)
  then obtain r2 where r2: "concat_results (map f chunks) = Some r2" "covers r2 t"
    by blast
  have "covers (r1 @ r2) (g @ c @ t)"
    using covers_gap [OF covers_Cons.hyps(1) covers_append [OF r1(2) r2(2)]] .
  then show ?case
    using r1(1) r2(1) by simp
qed

lemma splitText_covers:
  assumes "0 < cs" and "co = 0 \<or> \<not> hardSplitReached cs t idx"
  shows "\<exists>r. splitText cs co t idx = Some r \<and> covers r t"
  using assms
proof (induction cs co t idx rule: splitText_induct)
  case (step cs co t idx)
  show ?case
  proof (cases "int (length t) \<le> cs")
    case True
    then show ?thesis by (simp add: splitText_unfold covers_single)
  next
    case big: False
    show ?thesis
    proof (cases "length separators \<le> idx")
      case True
      then have "co = 0"
        using step.prems(2) big hardSplitReached_unfold [of cs t idx] by auto
      moreover obtain r where "hardSplitLoop t cs 0 0 [] = Some r" "concat r = t"
        using hardSplitLoop_concat [OF step.prems(1), of 0 t "[]"] by auto
      ultimately show ?thesis
        using big True covers_concat [of r] by (subst splitText_unfold) auto
    next
      case False
      have sub: "co = 0 \<or> \<not> hardSplitReached cs chunk (idx + 1)"
        if "chunk \<in> set (goodSplits_of cs t idx)" "cs < int (length chunk)" for chunk
        using step.prems(2) that big False hardSplitReached_unfold [of cs t idx] by auto
      have "\<exists>r. concat_results
               (map (\<lambda>chunk. if cs < int (length chunk)
                              then splitText cs co chunk (idx + 1) else Some [chunk])
                  (goodSplits_of cs t idx)) = Some r \<and> covers r t"
      proof (rule concat_results_covers)
        show "covers (goodSplits_of cs t idx) t"
          using False by (intro goodSplits_covers) simp
      next
        fix x assume x: "x \<in> set (goodSplits_of cs t idx)"
        show "\<exists>r. (if cs < int (length x) then splitText cs co x (idx + 1)
                      else Some [x]) = Some r \<and> covers r x"
          using step.IH [OF big _ x _ step.prems(1)] sub [OF x] False
          by (auto simp: covers_single)
      qed
      then show ?thesis
        using big False by (subst splitText_unfold) simp
    qed
  qed
qed

text \<open>
  Claim C9, amended. For every input text and every valid configuration, the chunks are
  contiguous pieces of the input, in order and without overlap, and every character of
  the input that is in no chunk is a line feed or a space: there are strings
  \<open>g\<^sub>0, \<dots>, g\<^sub>n\<close> of line feeds and spaces only, one before the first chunk, one
  at every chunk boundary and one after the last chunk, such that writing them back
  between the chunks gives the input exactly. Such a string can be empty, and it can
  hold more than the one separator of its split level.
\<close>

theorem chunks_cover_text:
  assumes "valid_config chunkSize chunkOverlap"
  shows "\<exists>chunks gaps.
           recursiveCharacterSplit text chunkSize chunkOverlap = Some chunks \<and>
           length gaps = length chunks + 1 \<and>
           (\<forall>g\<in>set gaps. \<forall>u\<in>set g. separator_unit u) \<and>
           text = interleave gaps chunks"
proof -
  have "chunkOverlap = 0 \<or> \<not> hardSplitReached chunkSize text 0"
    using assms hard_split_not_reached [of chunkSize "text" 0]
    by (cases "2 \<le> chunkSize") (auto simp: valid_config_def)
  then obtain chunks where
    "recursiveCharacterSplit text chunkSize chunkOverlap = Some chunks" "covers chunks text"
    using assms splitText_covers [of chunkSize chunkOverlap "text" 0]
    by (auto simp: recursiveCharacterSplit_def valid_config_def)
  then show ?thesis
    using covers_interleave [of chunks "text"] by blast
qed

theorem chunks_cover_text_witness:
  "valid_config 6 0 \<and>
   recursiveCharacterSplit (lit ''ab cd  ef gh'') 6 0 = Some [lit ''ab cd'', lit ''ef gh''] \<and>
   (\<exists>gaps. length gaps = 3 \<and> (\<forall>g\<in>set gaps. \<forall>u\<in>set g. separator_unit u) \<and>
      lit ''ab cd  ef gh'' = interleave gaps [lit ''ab cd'', lit ''ef gh''])"
proof -
  have v: "valid_config 6 0"
    by (simp add: valid_config_def)
  have r: "recursiveCharacterSplit (lit ''ab cd  ef gh'') 6 0 =
           Some [lit ''ab cd'', lit ''ef gh'']"
    by code_simp
  obtain chunks gaps where c:
    "recursiveCharacterSplit (lit ''ab cd  ef gh'') 6 0 = Some chunks"
    "length gaps = length chunks + 1"
    "\<forall>g\<in>set gaps. \<forall>u\<in>set g. separator_unit u"
    "lit ''ab cd  ef gh'' = interleave gaps chunks"
    using chunks_cover_text [OF v, of "lit ''ab cd  ef gh''"] by blast
  have "chunks = [lit ''ab cd'', lit ''ef gh'']"
    using c(1) r by simp
  then have "length gaps = 3 \<and> (\<forall>g\<in>set gaps. \<forall>u\<in>set g. separator_unit u) \<and>
     lit ''ab cd  ef gh'' = interleave gaps [lit ''ab cd'', lit ''ef gh'']"
    using c(2,3,4) by simp
  then show ?thesis
    using v r by blast
qed

text \<open>
  Claim C9, as stated, fails. A text of four spaces with \<open>chunkSize = 3\<close> is split at
  the spaces into empty pieces, which the recombination loop never pushes: no chunk is
  returned, so there is no chunk boundary at which a separator could be put back, and
  the spaces of the input occur nowhere. In \<^verbatim>\<open>aaa   bbb\<close> two of the three spaces are
  lost in the same way.
\<close>

theorem separators_lost:
  "valid_config 3 0 \<and>
   recursiveCharacterSplit (lit ''    '') 3 0 = Some [] \<and>
   recursiveCharacterSplit (lit ''aaa   bbb'') 3 0 = Some [lit ''aaa'', lit ''bbb'']"
proof -
  have "recursiveCharacterSplit (lit ''    '') 3 0 = Some []"
    by code_simp
  moreover have
    "recursiveCharacterSplit (lit ''aaa   bbb'') 3 0 = Some [lit ''aaa'', lit ''bbb'']"
    by code_simp
  ultimately show ?thesis
    by (simp add: valid_config_def)
qed

section \<open>A text of one repeated character\<close>

lemma js_split_from_replicate:
  "sep \<noteq> [] \<Longrightarrow> hd sep \<noteq> c \<Longrightarrow>
   js_split_from sep piece (replicate n c) = [piece @ replicate n c]"
proof (induction n arbitrary: piece)
  case 0
  then show ?case by simp
next
  case (Suc n)
  have "\<not> prefix sep (c # replicate n c)"
    using Suc.prems by (cases sep) auto
  then show ?case
    using Suc.IH [OF Suc.prems, of "piece @ [c]"] by (simp add: replicate_app_Cons_same)
qed

lemma array_from_replicate: "array_from (replicate n c) = replicate n [c]"
proof (cases n)
  case 0
  then show ?thesis by simp
next
  case (Suc m)
  have "array_from (replicate (Suc k) c) = replicate (Suc k) [c]" for k
    by (induction k) (simp_all add: not_lead_and_trail)
  then show ?thesis
    using Suc by simp
qed

lemma recombine_replicate:
  assumes "1 \<le> m" and "cs = int m + 1"
  shows "k \<le> m \<Longrightarrow>
     recombine cs [] (replicate n [c]) gs (replicate k c) =
     gs @ (if k + n = 0 then []
           else replicate ((k + n - 1) div m) (replicate m c) @
                [replicate ((k + n - 1) mod m + 1) c])"
proof (induction n arbitrary: k gs)
  case 0
  then show ?case
    using assms by (cases "k = 0") auto
next
  case (Suc n)
  show ?case
  proof (cases "k < m")
    case True
    then have "recombine cs [] (replicate (Suc n) [c]) gs (replicate k c) =
               recombine cs [] (replicate n [c]) gs (replicate (Suc k) c)"
      using assms(2) by (simp add: Let_def replicate_append_same)
    then show ?thesis
      using Suc.IH [of "Suc k" gs] True by simp
  next
    case False
    then have k: "k = m"
      using Suc.prems by simp
    have "recombine cs [] (replicate (Suc n) [c]) gs (replicate k c) =
          recombine cs [] (replicate n [c]) (gs @ [replicate m c]) (replicate 1 c)"
      using assms k by (simp add: Let_def replicate_append_same)
    also have "\<dots> = (gs @ [replicate m c]) @
        (replicate (n div m) (replicate m c) @ [replicate (n mod m + 1) c])"
      using Suc.IH [of 1 "gs @ [replicate m c]"] assms(1) by simp
    also have "\<dots> = gs @ replicate ((m + n) div m) (replicate m c) @
                        [replicate ((m + n) mod m + 1) c]"
      using assms(1) by (simp add: div_add_self1)
    finally show ?thesis
      using k by simp
  qed
qed

lemma concat_results_all_small:
  "\<forall>x\<in>set xs. \<not> cs < int (length x) \<Longrightarrow>
   concat_results (map (\<lambda>chunk. if cs < int (length chunk) then f chunk else Some [chunk]) xs) =
   Some xs"
  by (induction xs) simp_all

lemma goodSplits_replicate_upper:
  assumes "idx < 3" and "\<not> separator_unit c" and "cs \<le> int n" and "0 < n"
  shows "goodSplits_of cs (replicate n c) idx = [replicate n c]"
proof -
  let ?sep = "separators ! idx"
  have sep: "?sep \<noteq> []" "\<forall>u\<in>set ?sep. separator_unit u"
    using separators_cases [of idx] assms(1) by (auto simp: length_separators)
  then have "hd ?sep \<noteq> c"
    using assms(2) by (cases ?sep) auto
  then have "js_split (replicate n c) ?sep = [replicate n c]"
    using js_split_from_replicate [OF sep(1), of c "[]" n] by (simp add: js_split_def)
  then show ?thesis
    using sep(1) assms(3,4) by (simp add: goodSplits_of_def Let_def)
qed

lemma goodSplits_replicate_last:
  assumes "2 \<le> cs" and "0 < n"
  shows "goodSplits_of cs (replicate n c) 3 =
     replicate ((n - 1) div nat (cs - 1)) (replicate (nat (cs - 1)) c) @
     [replicate ((n - 1) mod nat (cs - 1) + 1) c]"
proof -
  have "recombine cs [] (replicate n [c]) [] (replicate 0 c) =
     [] @ (if 0 + n = 0 then []
           else replicate ((0 + n - 1) div nat (cs - 1)) (replicate (nat (cs - 1)) c) @
                [replicate ((0 + n - 1) mod nat (cs - 1) + 1) c])"
    using assms(1) by (intro recombine_replicate) simp_all
  then show ?thesis
    using assms(2) by (simp add: goodSplits_of_def separators_def array_from_replicate)
qed

text \<open>
  A text of one repeated character that is not a separator passes the first three levels
  unsplit and is cut at the last level into pieces of \<open>chunkSize - 1\<close> characters.
\<close>

lemma split_replicate:
  assumes "\<not> separator_unit c" and "2 \<le> cs" and "cs < int n"
  shows "recursiveCharacterSplit (replicate n c) cs co =
     Some (replicate ((n - 1) div nat (cs - 1)) (replicate (nat (cs - 1)) c) @
           [replicate ((n - 1) mod nat (cs - 1) + 1) c])"
proof -
  let ?t = "replicate n c"
  have big: "\<not> int (length ?t) \<le> cs" and n: "0 < n" and le: "cs \<le> int n"
    using assms(2,3) by simp_all
  have up: "splitText cs co ?t idx = splitText cs co ?t (idx + 1)" if "idx < 3" for idx
    using that big assms(3) goodSplits_replicate_upper [OF that assms(1) le n]
    by (subst splitText_unfold) (simp add: length_separators split: option.splits)
  have "\<forall>x\<in>set (goodSplits_of cs ?t 3). \<not> cs < int (length x)"
  proof
    fix x assume "x \<in> set (goodSplits_of cs ?t 3)"
    then have "length x = nat (cs - 1) \<or> length x = (n - 1) mod nat (cs - 1) + 1"
      unfolding goodSplits_replicate_last [OF assms(2) n] by auto
    moreover have "(n - 1) mod nat (cs - 1) < nat (cs - 1)"
      using assms(2) by (intro mod_less_divisor) simp
    then have "int ((n - 1) mod nat (cs - 1) + 1) \<le> cs"
      using assms(2) by linarith
    moreover have "int (nat (cs - 1)) \<le> cs"
      using assms(2) by linarith
    ultimately show "\<not> cs < int (length x)"
      by (elim disjE) (simp_all only: not_less)
  qed
  then have "splitText cs co ?t 3 = Some (goodSplits_of cs ?t 3)"
    using big by (subst splitText_unfold) (simp add: length_separators concat_results_all_small)
  moreover have "splitText cs co ?t 0 = splitText cs co ?t 3"
    using up [of 0] up [of 1] up [of 2] by (simp add: numeral_eq_Suc)
  ultimately show ?thesis
    by (simp add: recursiveCharacterSplit_def goodSplits_replicate_last [OF assms(2) n])
qed

text \<open>
  Claim C4, amended. For an input of 1000 identical characters, none of them a line feed
  or a space, \<open>chunkSize = 100\<close> and \<open>chunkOverlap = 0\<close> give exactly 11 chunks: ten
  of length 99 followed by one of length 10.
\<close>

theorem identical_characters_split:
  assumes "\<not> separator_unit c"
  shows "recursiveCharacterSplit (replicate 1000 c) 100 0 =
         Some (replicate 10 (replicate 99 c) @ [replicate 10 c])"
  using split_replicate [OF assms, of 100 1000 0] by simp

theorem identical_characters_split_witness:
  "\<not> separator_unit 0x61 \<and>
   recursiveCharacterSplit (replicate 1000 0x61) 100 0 =
     Some (replicate 10 (replicate 99 0x61) @ [replicate 10 0x61])"
proof -
  have a: "\<not> separator_unit 0x61"
    by (simp add: separator_unit_def LF_def SP_def)
  show ?thesis
    using a identical_characters_split [OF a] by simp
qed

text \<open>
  Claim C4, as stated, fails: the recombination loop keeps a piece only while the
  accumulated length stays strictly below \<open>chunkSize\<close>, so 1000 letters \<open>a\<close> give 11
  chunks and none of them has length 100.
\<close>

theorem identical_characters_eleven_chunks:
  "map_option length (recursiveCharacterSplit (replicate 1000 0x61) 100 0) = Some 11 \<and>
   map_option (map length) (recursiveCharacterSplit (replicate 1000 0x61) 100 0) =
     Some (replicate 10 99 @ [10])"
proof -
  have a: "\<not> separator_unit 0x61"
    by (simp add: separator_unit_def LF_def SP_def)
  have "recursiveCharacterSplit (replicate 1000 0x61) 100 0 =
        Some (replicate 10 (replicate 99 0x61) @ [replicate 10 0x61])"
    using split_replicate [OF a, of 100 1000 0] by simp
  then show ?thesis
    by simp
qed

section \<open>Properties of \<^verbatim>\<open>createChunksFromDoc\<close>\<close>

lemma map_enumerate_upt:
  "map (\<lambda>(i, x). f i x) (enumerate 0 xs) = map (\<lambda>i. f i (xs ! i)) [0..<length xs]"
  by (rule nth_equalityI) (simp_all add: nth_enumerate_eq)

text \<open>
  Claim C8, amended. For every document identifier and content,
  \<^verbatim>\<open>createChunksFromDoc\<close> splits the content with chunk size 500 and overlap 50 and
  returns one chunk for every piece, in order: the chunk of the piece at index \<open>idx\<close>
  has the identifier \<open>docId-chunk-idx\<close>, the document identifier as source and the
  trimmed piece as content. No piece is dropped.
\<close>

theorem chunks_from_doc:
  "\<exists>rawChunks.
     recursiveCharacterSplit content' 500 50 = Some rawChunks \<and>
     createChunksFromDoc docId content' =
       Some (map (\<lambda>idx. \<lparr>chunk_id = docId @ lit ''-chunk-'' @ number_to_string idx,
                            sourceId = docId,
                            content = js_trim (rawChunks ! idx),
                            metadata = \<lparr>startIndex = idx, endIndex = idx + 1\<rparr>\<rparr>)
               [0..<length rawChunks])"
proof -
  obtain rawChunks where raw: "recursiveCharacterSplit content' 500 50 = Some rawChunks"
    using splitText_returns [of 50 500 content' 0] by (auto simp: recursiveCharacterSplit_def)
  show ?thesis
    unfolding createChunksFromDoc_def raw
    using map_enumerate_upt [of _ rawChunks] by simp
qed

text \<open>
  Claim C8, as stated, fails: nothing is filtered after trimming, so a content of one
  space gives a chunk with empty content.
\<close>

theorem whitespace_chunk_kept:
  "createChunksFromDoc (lit ''doc-1'') (lit '' '') =
     Some [\<lparr>chunk_id = lit ''doc-1-chunk-0'', sourceId = lit ''doc-1'', content = [],
            metadata = \<lparr>startIndex = 0, endIndex = 1\<rparr>\<rparr>]"
  by code_simp

section \<open>Properties of the retriever\<close>

lemma set_sort_insert: "set (sort_insert cmp x ys) = insert x (set ys)"
  by (induction ys) auto

lemma set_js_sort: "set (js_sort cmp xs) = set xs"
  by (induction xs) (auto simp: set_sort_insert)

lemma length_sort_insert: "length (sort_insert cmp x ys) = Suc (length ys)"
  by (induction ys) auto

lemma length_js_sort: "length (js_sort cmp xs) = length xs"
  by (induction xs) (auto simp: length_sort_insert)

lemma sorted_sort_insert:
  "sorted_wrt (\<lambda>a b. f b \<le> f a) ys \<Longrightarrow>
   sorted_wrt (\<lambda>a b. f b \<le> f a) (sort_insert (\<lambda>a b. f b - f a) x ys)"
  for f :: "'a \<Rightarrow> rat"
  by (induction ys) (auto simp: set_sort_insert)

lemma sorted_js_sort:
  "sorted_wrt (\<lambda>a b. f b \<le> f a) (js_sort (\<lambda>a b. f b - f a) xs)"
  for f :: "'a \<Rightarrow> rat"
  by (induction xs) (auto simp: sorted_sort_insert)

lemma filter_sort_insert:
  "filter (\<lambda>y. f y = k) (sort_insert (\<lambda>a b. f b - f a) x ys) =
   filter (\<lambda>y. f y = k) (x # ys)"
  for f :: "'a \<Rightarrow> rat"
  by (induction ys) auto

lemma filter_js_sort:
  "filter (\<lambda>y. f y = k) (js_sort (\<lambda>a b. f b - f a) xs) = filter (\<lambda>y. f y = k) xs"
  for f :: "'a \<Rightarrow> rat"
  by (induction xs) (auto simp: filter_sort_insert)

lemma js_slice_from_0:
  "js_slice xs 0 k = take (if k < 0 then nat (int (length xs) + k) else nat k) xs"
  by (auto simp: js_slice_def Let_def min_def max_def)

lemma prefix_filter_take: "prefix (filter P (take n xs)) (filter P xs)"
proof -
  have "filter P xs = filter P (take n xs) @ filter P (drop n xs)"
    by (metis append_take_drop_id filter_append)
  then show ?thesis
    by (simp add: prefix_def)
qed


lemma sort_insert_map:
  "sort_insert (\<lambda>a b. f b - f a) (g x) (map g ys) =
   map g (sort_insert (\<lambda>a b. f (g b) - f (g a)) x ys)"
  for f :: "'b \<Rightarrow> rat"
  by (induction ys) auto

lemma js_sort_map:
  "js_sort (\<lambda>a b. f b - f a) (map g xs) = map g (js_sort (\<lambda>a b. f (g b) - f (g a)) xs)"
  for f :: "'b \<Rightarrow> rat"
  by (induction xs) (auto simp: sort_insert_map)

text \<open>
  The result of the retriever: a prefix of the chunks sorted by their scores.
\<close>

lemma retrieve_eq:
  "retrieveRelevantChunks q chunks k =
     take (if k < 0 then nat (int (length chunks) + k) else nat k)
       (js_sort (\<lambda>a b. chunk_score q b - chunk_score q a) chunks)"
proof -
  let ?mk = "\<lambda>c. \<lparr>chunk = c, score = chunk_score q c\<rparr>"
  let ?n = "if k < 0 then nat (int (length chunks) + k) else nat k"
  let ?sorted = "js_sort (\<lambda>a b. chunk_score q b - chunk_score q a) chunks"
  have sorted: "js_sort (\<lambda>a b. score b - score a) (map ?mk chunks) = map ?mk ?sorted"
    using js_sort_map [of score ?mk chunks] by simp
  have "retrieveRelevantChunks q chunks k =
        (if length chunks = 0 then []
         else map chunk (js_slice (js_sort (\<lambda>a b. score b - score a) (map ?mk chunks)) 0 k))"
    unfolding retrieveRelevantChunks_def chunk_score_def Let_def by (rule refl)
  also have "\<dots> = map chunk (js_slice (map ?mk ?sorted) 0 k)"
  proof (cases "length chunks = 0")
    case True
    then have "chunks = []" by simp
    then show ?thesis by (simp add: js_slice_def)
  next
    case False
    then show ?thesis by (simp only: sorted if_False)
  qed
  also have "js_slice (map ?mk ?sorted) 0 k = take ?n (map ?mk ?sorted)"
    by (simp only: js_slice_from_0 length_map length_js_sort)
  also have "map chunk (take ?n (map ?mk ?sorted)) = take ?n ?sorted"
    by (simp only: take_map map_map comp_def scored.simps map_ident)
  finally show ?thesis .
qed

lemma js_sort_all_equal:
  fixes f :: "'a \<Rightarrow> rat"
  assumes "\<forall>x\<in>set xs. f x = k"
  shows "js_sort (\<lambda>a b. f b - f a) xs = xs"
proof -
  have "filter (\<lambda>y. f y = k) (js_sort (\<lambda>a b. f b - f a) xs) = js_sort (\<lambda>a b. f b - f a) xs"
    using assms by (simp add: set_js_sort)
  moreover have "filter (\<lambda>y. f y = k) xs = xs"
    using assms by simp
  ultimately show ?thesis
    using filter_js_sort [of f k xs] by simp
qed

lemma tokenize_empty: "tokenize [] = []"
  by (simp add: tokenize_def toLowerCase_def remove_punctuation_def split_whitespace_def
      new_Set_def)

lemma chunk_score_empty_query: "chunk_score [] c = 0"
  by (simp add: chunk_score_def tokenize_empty calculateScore_def)

text \<open>
  Claim C6. For every query, chunk collection and \<open>topK\<close>, the result is ordered by
  non-increasing score, and the chunks of any one score appear in it in their input
  order: they are a prefix of the input chunks of that score. With the empty query every
  chunk scores 0 and \<open>topK = 3\<close> gives the first three input chunks in input order.
\<close>

theorem retrieve_sorted_stable:
  "sorted_wrt (\<lambda>a b. chunk_score query b \<le> chunk_score query a)
     (retrieveRelevantChunks query allChunks topK) \<and>
   (\<forall>s. prefix (filter (\<lambda>c. chunk_score query c = s) (retrieveRelevantChunks query allChunks topK))
               (filter (\<lambda>c. chunk_score query c = s) allChunks)) \<and>
   retrieveRelevantChunks [] allChunks 3 = take 3 allChunks \<and>
   (\<forall>c\<in>set allChunks. chunk_score [] c = 0)"
proof -
  let ?n = "if topK < 0 then nat (int (length allChunks) + topK) else nat topK"
  let ?sorted = "js_sort (\<lambda>a b. chunk_score query b - chunk_score query a) allChunks"
  have "sorted_wrt (\<lambda>a b. chunk_score query b \<le> chunk_score query a) (take ?n ?sorted)"
    using sorted_js_sort [of "chunk_score query" allChunks] sorted_wrt_take by blast
  moreover have
    "prefix (filter (\<lambda>c. chunk_score query c = s) (take ?n ?sorted))
            (filter (\<lambda>c. chunk_score query c = s) allChunks)" for s
    using prefix_filter_take [of "\<lambda>c. chunk_score query c = s" ?n ?sorted]
    by (simp add: filter_js_sort)
  moreover have "retrieveRelevantChunks [] allChunks 3 = take 3 allChunks"
    using js_sort_all_equal [of allChunks "chunk_score []" 0]
    by (simp add: retrieve_eq chunk_score_empty_query)
  ultimately show ?thesis
    by (simp add: retrieve_eq chunk_score_empty_query)
qed

theorem retrieve_sorted_stable_witness:
  "retrieveRelevantChunks [] [scenario_c2, scenario_c1] 3 = [scenario_c2, scenario_c1] \<and>
   chunk_score [] scenario_c2 = 0 \<and> chunk_score [] scenario_c1 = 0"
  using retrieve_sorted_stable [where query = "[]" and allChunks = "[scenario_c2, scenario_c1]"
      and topK = 3]
  by simp

text \<open>
  Claim C7. The retriever is a total function with no failure outcome (the source has no
  throw, and every operation it uses is defined on all strings and arrays). On the empty
  collection and with \<open>topK = 0\<close> it returns the empty sequence, and for
  \<open>topK \<ge> 0\<close> the length of the result is the minimum of \<open>topK\<close> and the number
  of chunks.
\<close>

theorem retrieve_total:
  "retrieveRelevantChunks query [] topK = [] \<and>
   retrieveRelevantChunks query allChunks 0 = [] \<and>
   (0 \<le> topK \<longrightarrow>
      length (retrieveRelevantChunks query allChunks topK) = min (nat topK) (length allChunks))"
proof -
  have "retrieveRelevantChunks query [] topK = []"
    by (simp add: retrieveRelevantChunks_def)
  moreover have "retrieveRelevantChunks query allChunks 0 = []"
    by (simp add: retrieve_eq)
  moreover have
    "length (retrieveRelevantChunks query allChunks topK) = min (nat topK) (length allChunks)"
    if "0 \<le> topK"
    using that by (auto simp: retrieve_eq length_js_sort)
  ultimately show ?thesis
    by blast
qed

theorem retrieve_total_witness:
  "(0::int) \<le> 1 \<and>
   length (retrieveRelevantChunks (lit ''connection refused port 8080'')
             [scenario_c1, scenario_c2] 1) = 1"
  using retrieve_total [where query = "lit ''connection refused port 8080''"
      and allChunks = "[scenario_c1, scenario_c2]" and topK = 1]
  by simp

lemma set_fold_set_add: "set (fold set_add xs acc) = set xs \<union> set acc"
  by (induction xs arbitrary: acc) (auto simp: set_add_def)

lemma distinct_fold_set_add: "distinct acc \<Longrightarrow> distinct (fold set_add xs acc)"
  by (induction xs arbitrary: acc) (auto simp: set_add_def)

lemma set_new_Set: "set (new_Set xs) = set xs"
  by (simp add: new_Set_def set_fold_set_add)

lemma distinct_new_Set: "distinct (new_Set xs)"
  by (simp add: new_Set_def distinct_fold_set_add)

lemma fold_overlap:
  "fold (\<lambda>qt overlap. if qt \<in> S then overlap + 1 else overlap) qs (a::int) =
   a + int (length (filter (\<lambda>q. q \<in> S) qs))"
  by (induction qs arbitrary: a) auto

lemma overlap_card:
  "distinct qs \<Longrightarrow> length (filter (\<lambda>q. q \<in> S) qs) = card (set qs \<inter> S)"
  by (simp add: distinct_length_filter Int_commute Collect_mem_eq)

lemma calculateScore_card:
  assumes "distinct qs" and "distinct cs"
  shows "calculateScore qs cs =
     of_nat (card (set qs \<inter> set cs)) /
     of_int (if int (card (set qs)) + int (card (set cs)) - int (card (set qs \<inter> set cs)) = 0
             then 1
             else int (card (set qs)) + int (card (set cs)) - int (card (set qs \<inter> set cs)))"
  using assms
  by (simp add: calculateScore_def Let_def fold_overlap overlap_card distinct_card)

lemma words_of_dropWhile: "words_of (dropWhile is_space s) = words_of s"
proof -
  have "words_of (dropWhile is_space s) =
        (case dropWhile is_space (dropWhile is_space s) of
           [] \<Rightarrow> []
         | c # cs \<Rightarrow> takeWhile (\<lambda>u. \<not> is_space u) (c # cs) #
                    words_of (dropWhile (\<lambda>u. \<not> is_space u) (c # cs)))"
    by (rule words_of.simps)
  also have "dropWhile is_space (dropWhile is_space s) = dropWhile is_space s"
    by (rule dropWhile_idem)
  also have "(case dropWhile is_space s of
           [] \<Rightarrow> []
         | c # cs \<Rightarrow> takeWhile (\<lambda>u. \<not> is_space u) (c # cs) #
                    words_of (dropWhile (\<lambda>u. \<not> is_space u) (c # cs))) = words_of s"
    by (rule words_of.simps [symmetric])
  finally show ?thesis .
qed

lemma words_of_word:
  assumes "piece \<noteq> []" and "\<forall>u\<in>set piece. \<not> is_space u" and "rest = [] \<or> is_space (hd rest)"
  shows "words_of (piece @ rest) = piece # words_of rest"
proof -
  obtain c cs where p: "piece = c # cs"
    using assms(1) by (cases piece) auto
  have d: "dropWhile is_space (piece @ rest) = piece @ rest"
    using p assms(2) by simp
  have t: "takeWhile (\<lambda>u. \<not> is_space u) (piece @ rest) = piece"
    using assms(2,3) by (cases rest) (simp_all add: takeWhile_append2)
  have r: "dropWhile (\<lambda>u. \<not> is_space u) (piece @ rest) = rest"
    using assms(2,3) by (cases rest) (simp_all add: dropWhile_append2)
  have "words_of (piece @ rest) =
        (case dropWhile is_space (piece @ rest) of
           [] \<Rightarrow> []
         | c # cs \<Rightarrow> takeWhile (\<lambda>u. \<not> is_space u) (c # cs) #
                    words_of (dropWhile (\<lambda>u. \<not> is_space u) (c # cs)))"
    by (rule words_of.simps)
  also have "\<dots> = takeWhile (\<lambda>u. \<not> is_space u) (piece @ rest) #
                    words_of (dropWhile (\<lambda>u. \<not> is_space u) (piece @ rest))"
    unfolding d using p by simp
  finally show ?thesis
    by (simp only: t r)
qed

lemma words_of_Nil: "words_of [] = []"
  by (subst words_of.simps) simp

lemma split_whitespace_from_words:
  "\<forall>u\<in>set piece. \<not> is_space u \<Longrightarrow>
   filter (\<lambda>w. w \<noteq> []) (split_whitespace_from piece rest) = words_of (piece @ rest)"
proof (induction piece rest rule: split_whitespace_from.induct)
  case (1 piece)
  then show ?case
    using words_of_word [of piece "[]"] by (cases "piece = []") (simp_all add: words_of_Nil)
next
  case (2 piece c cs)
  show ?case
  proof (cases "is_space c")
    case True
    have tail: "words_of (c # cs) = words_of (dropWhile is_space cs)"
      using words_of_dropWhile [of "c # cs"] True by simp
    have "words_of (piece @ c # cs) = (if piece = [] then [] else [piece]) @ words_of (c # cs)"
      using words_of_word [of piece "c # cs"] "2.prems" True by simp
    then show ?thesis
      using True "2.IH"(1) [OF True] tail by simp
  next
    case False
    then show ?thesis
      using "2.IH"(2) [OF False] "2.prems" by simp
  qed
qed

lemma long_words_split_whitespace:
  "filter (\<lambda>w. length w > 2) (split_whitespace s) = filter (\<lambda>w. length w > 2) (words_of s)"
proof -
  have "filter (\<lambda>w. length w > 2) (split_whitespace s) =
        filter (\<lambda>w. length w > 2) (filter (\<lambda>w. w \<noteq> []) (split_whitespace s))"
    by (auto intro: filter_cong)
  then show ?thesis
    using split_whitespace_from_words [of "[]" s] by (simp add: split_whitespace_def)
qed

lemma set_tokenize: "set (tokenize s) = spec_tokens s"
  by (auto simp: tokenize_def spec_tokens_def set_new_Set long_words_split_whitespace)

lemma distinct_tokenize: "distinct (tokenize s)"
  by (simp add: tokenize_def distinct_new_Set)

text \<open>
  Claim C5. The token list that \<open>tokenize\<close> computes has, as its set of elements,
  the token set of the specification, for the query and for the chunk text. With \<open>Q\<close>
  and \<open>C\<close> these two sets, the score is \<open>|Q \<inter> C| / (|Q| + |C| - |Q \<inter> C|)\<close>,
  with the divisor 1 when that denominator is 0, which is the case exactly when both sets
  are empty; then the score is 0. The score is never negative.
\<close>

theorem score_is_jaccard:
  "set (tokenize query) = spec_tokens query \<and>
   set (tokenize (content c)) = spec_tokens (content c) \<and>
   (let Q = spec_tokens query;
        C = spec_tokens (content c);
        n = int (card (Q \<inter> C));
        d = int (card Q) + int (card C) - n
    in chunk_score query c = of_int n / of_int (if d = 0 then 1 else d) \<and>
       (d = 0 \<longleftrightarrow> Q = {} \<and> C = {}) \<and>
       (d = 0 \<longrightarrow> chunk_score query c = 0) \<and>
       0 \<le> chunk_score query c)"
proof -
  let ?Q = "spec_tokens query" and ?C = "spec_tokens (content c)"
  let ?n = "int (card (?Q \<inter> ?C))"
  let ?d = "int (card ?Q) + int (card ?C) - ?n"
  have fin: "finite ?Q" "finite ?C"
    by (simp_all add: set_tokenize [symmetric])
  have d: "?d = int (card (?Q \<union> ?C))"
    using card_Un_Int [OF fin] by simp
  have score: "chunk_score query c = of_int ?n / of_int (if ?d = 0 then 1 else ?d)"
    unfolding chunk_score_def
      calculateScore_card [OF distinct_tokenize distinct_tokenize, of query "content c"]
      set_tokenize
    by simp
  have zero: "?d = 0 \<longleftrightarrow> ?Q = {} \<and> ?C = {}"
    using fin by (simp add: d)
  have "0 \<le> ?d"
    by (simp add: d)
  then have nonneg: "0 \<le> chunk_score query c"
    unfolding score by (intro divide_nonneg_nonneg) simp_all
  have "?d = 0 \<longrightarrow> chunk_score query c = 0"
    unfolding score using zero by auto
  then show ?thesis
    using score zero nonneg by (simp add: set_tokenize Let_def)
qed

theorem score_is_jaccard_witness:
  "spec_tokens [] = {} \<and> spec_tokens (lit ''a to be'') = {} \<and>
   chunk_score []
     \<lparr>chunk_id = lit ''c'', sourceId = lit ''doc'', content = lit ''a to be'',
      metadata = \<lparr>startIndex = 0, endIndex = 1\<rparr>\<rparr> = 0"
proof -
  have "tokenize (lit ''a to be'') = []"
    by code_simp
  then show ?thesis
    using tokenize_empty
      score_is_jaccard [of "[]" "\<lparr>chunk_id = lit ''c'', sourceId = lit ''doc'',
        content = lit ''a to be'', metadata = \<lparr>startIndex = 0, endIndex = 1\<rparr>\<rparr>"]
    by (simp add: Let_def)
qed

end
